theory Spec2Isabelle
  imports Complex_Main "HOL-Library.Word"
begin

section \<open>Data model of \<^verbatim>\<open>signals.cpp\<close>\<close>

text \<open>
  Sample and dataset arrays are \<^verbatim>\<open>std::vector<float>\<close> in row-major order, cut and
  exclusion bounds are \<^verbatim>\<open>double\<close>.  Indices are \<^verbatim>\<open>size_t\<close> and modelled as
  \<^typ>\<open>nat\<close>: every index the code forms is bounded by the size of a vector that exists
  in memory.

  A read or write past the end of a vector, and an integer division by zero, are undefined
  behaviour in C++; the model returns \<^term>\<open>None\<close> there.
\<close>

subsection \<open>Floating-point values and their comparisons\<close>

text \<open>
  \<^verbatim>\<open>read_dataset_to_samples\<close> copies \<^verbatim>\<open>float\<close> values and compares them with
  \<^verbatim>\<open>double\<close> bounds.  A \<^verbatim>\<open>float\<close> converts to \<^verbatim>\<open>double\<close> without rounding, so both
  are modelled by one type of values: NaN, the two infinities, and the finite numbers
  (the two signed zeros are the one number \<open>0\<close>, as they are for every comparison).
\<close>

datatype ieee = NaN | NegInf | Num real | PosInf

text \<open>The value-initialised element \<open>0.0\<close> that \<^verbatim>\<open>std::vector\<close> pads with.\<close>

instantiation ieee :: zero
begin
definition zero_ieee :: ieee where "zero_ieee = Num 0"
instance ..
end

text \<open>
  The operators \<open><\<close> and \<open><=\<close> of C++ on these values (\<open>a > b\<close> is \<open>b < a\<close>, \<open>a >= b\<close>
  is \<open>b <= a\<close>): every comparison with NaN is false.
\<close>

fun ieee_less :: "ieee \<Rightarrow> ieee \<Rightarrow> bool" where
  "ieee_less NaN b = False"
| "ieee_less a NaN = False"
| "ieee_less NegInf NegInf = False"
| "ieee_less NegInf b = True"
| "ieee_less a NegInf = False"
| "ieee_less PosInf b = False"
| "ieee_less a PosInf = True"
| "ieee_less (Num x) (Num y) = (x < y)"

fun ieee_le :: "ieee \<Rightarrow> ieee \<Rightarrow> bool" where
  "ieee_le NaN b = False"
| "ieee_le a NaN = False"
| "ieee_le NegInf b = True"
| "ieee_le a NegInf = False"
| "ieee_le a PosInf = True"
| "ieee_le PosInf b = False"
| "ieee_le (Num x) (Num y) = (x \<le> y)"

text \<open>
  \<^verbatim>\<open>Observable\<close> is declared in \<^verbatim>\<open>sxmc/observable.h\<close>; the record holds the members
  that \<^verbatim>\<open>read_dataset_to_samples\<close> and \<^verbatim>\<open>apply_exclusions\<close> read.  The cut bounds
  \<open>lower\<close> and \<open>upper\<close> are floating-point values as above.  \<^verbatim>\<open>apply_exclusions\<close> only
  copies sample values and tests \<open>v >= exclude_min && v <= exclude_max\<close>; its sample
  values and the exclusion bounds are modelled by the real numbers they denote.
\<close>

record Observable =
  field :: string
  lower :: ieee
  upper :: ieee
  exclude :: bool
  exclude_min :: real
  exclude_max :: real

text \<open>\<^verbatim>\<open>std::vector::resize(n)\<close>: truncate, or pad with value-initialised elements.\<close>

definition resize :: "nat \<Rightarrow> 'a::zero list \<Rightarrow> 'a list" where
  "resize n xs = take n xs @ replicate (n - length xs) 0"

text \<open>
  \<^verbatim>\<open>std::find(v.begin(), v.end(), x) - v.begin()\<close>: the index of the first element equal to
  \<open>x\<close>, or \<open>v.size()\<close> when there is none.
\<close>

fun find_index :: "'a list \<Rightarrow> 'a \<Rightarrow> nat" where
  "find_index [] x = 0"
| "find_index (y # ys) x = (if y = x then 0 else Suc (find_index ys x))"

subsection \<open>\<^verbatim>\<open>Signal::read_dataset_to_samples\<close>\<close>

text \<open>
  Lines 16--27: the cut lookup table.  For dataset field \<open>f\<close> the inner loop runs over all
  cuts in order and overwrites the entry at every match, starting from
  \<open>(false, 0.0, 0.0)\<close>.
\<close>

definition field_has_cut :: "string list \<Rightarrow> Observable list \<Rightarrow> bool list" where
  "field_has_cut dataset_fields cuts =
     map (\<lambda>f. foldl (\<lambda>b c. if field c = f then True else b) False cuts) dataset_fields"

definition field_cut_lower :: "string list \<Rightarrow> Observable list \<Rightarrow> ieee list" where
  "field_cut_lower dataset_fields cuts =
     map (\<lambda>f. foldl (\<lambda>b c. if field c = f then lower c else b) 0 cuts) dataset_fields"

definition field_cut_upper :: "string list \<Rightarrow> Observable list \<Rightarrow> ieee list" where
  "field_cut_upper dataset_fields cuts =
     map (\<lambda>f. foldl (\<lambda>b c. if field c = f then upper c else b) 0 cuts) dataset_fields"

text \<open>Lines 30--36: the map from sample column to dataset column.\<close>

definition sample_to_dataset_map :: "string list \<Rightarrow> string list \<Rightarrow> nat list" where
  "sample_to_dataset_map sample_fields dataset_fields =
     map (\<lambda>s. find_index dataset_fields s) sample_fields"

text \<open>
  Lines 41--50: \<open>event_valid\<close> for event \<open>i\<close>.  The loop over the dataset columns leaves
  with \<open>false\<close> at the first column that has a cut and for which
  \<open>data < lower || data > upper\<close> holds.  For a NaN value, or a NaN bound, the test is
  false and the column does not invalidate the event.
\<close>

fun event_valid ::
  "ieee list \<Rightarrow> nat \<Rightarrow> bool list \<Rightarrow> ieee list \<Rightarrow> ieee list \<Rightarrow> nat \<Rightarrow> nat list \<Rightarrow> bool" where
  "event_valid dataset nf hc lo hi i [] = True"
| "event_valid dataset nf hc lo hi i (j # js) =
     (let data = dataset ! (i * nf + j) in
      if hc ! j \<and> (ieee_less data (lo ! j) \<or> ieee_less (hi ! j) data) then False
      else event_valid dataset nf hc lo hi i js)"

text \<open>
  Lines 57--61: copy event \<open>i\<close> into row \<open>sample_index\<close> of \<open>samples\<close>, column by column.
\<close>

fun copy_event ::
  "ieee list \<Rightarrow> nat \<Rightarrow> nat list \<Rightarrow> nat \<Rightarrow> nat \<Rightarrow> nat \<Rightarrow> nat list \<Rightarrow> ieee list
     \<Rightarrow> ieee list option" where
  "copy_event dataset nf smap nsf i sample_index [] samples = Some samples"
| "copy_event dataset nf smap nsf i sample_index (j # js) samples =
     (if i * nf + smap ! j < length dataset \<and> sample_index * nsf + j < length samples
      then copy_event dataset nf smap nsf i sample_index js
             (samples[sample_index * nsf + j := dataset ! (i * nf + smap ! j)])
      else None)"

text \<open>Lines 40--63: the loop over the events, on the state \<open>(samples, sample_index)\<close>.\<close>

fun read_events ::
  "ieee list \<Rightarrow> nat \<Rightarrow> bool list \<Rightarrow> ieee list \<Rightarrow> ieee list \<Rightarrow> nat list \<Rightarrow> nat
     \<Rightarrow> nat list \<Rightarrow> ieee list \<times> nat \<Rightarrow> (ieee list \<times> nat) option" where
  "read_events dataset nf hc lo hi smap nsf [] st = Some st"
| "read_events dataset nf hc lo hi smap nsf (i # is) (samples, sample_index) =
     (if \<not> event_valid dataset nf hc lo hi i [0..<nf]
      then read_events dataset nf hc lo hi smap nsf is (samples, sample_index)
      else (case copy_event dataset nf smap nsf i sample_index [0..<nsf] samples of
              None \<Rightarrow> None
            | Some samples' \<Rightarrow>
                read_events dataset nf hc lo hi smap nsf is (samples', Suc sample_index)))"

definition read_dataset_to_samples ::
  "ieee list \<Rightarrow> ieee list \<Rightarrow> string list \<Rightarrow> string list \<Rightarrow> Observable list
     \<Rightarrow> ieee list option" where
  "read_dataset_to_samples samples dataset sample_fields dataset_fields cuts =
     (if length dataset_fields = 0 then None
      else
        let nf = length dataset_fields;
            nsf = length sample_fields;
            ndata = length dataset div nf
        in case read_events dataset nf
                  (field_has_cut dataset_fields cuts)
                  (field_cut_lower dataset_fields cuts)
                  (field_cut_upper dataset_fields cuts)
                  (sample_to_dataset_map sample_fields dataset_fields)
                  nsf [0..<ndata] (samples, 0) of
             None \<Rightarrow> None
           | Some (samples', sample_index) \<Rightarrow> Some (resize (sample_index * nsf) samples'))"

subsection \<open>\<^verbatim>\<open>Signal::apply_exclusions\<close>\<close>

text \<open>
  Lines 73--85: the lookup table of excluded regions.  An observable sets the entry of
  sample field \<open>f\<close> only when its field name is \<open>f\<close> and its \<open>exclude\<close> flag is set; a
  later such observable overwrites an earlier one.
\<close>

definition field_has_exclude :: "string list \<Rightarrow> Observable list \<Rightarrow> bool list" where
  "field_has_exclude sample_fields observables =
     map (\<lambda>f. foldl (\<lambda>b ob. if field ob = f \<and> exclude ob then True else b) False observables)
       sample_fields"

definition field_exclude_lower :: "string list \<Rightarrow> Observable list \<Rightarrow> real list" where
  "field_exclude_lower sample_fields observables =
     map (\<lambda>f. foldl (\<lambda>b ob. if field ob = f \<and> exclude ob then exclude_min ob else b) 0 observables)
       sample_fields"

definition field_exclude_upper :: "string list \<Rightarrow> Observable list \<Rightarrow> real list" where
  "field_exclude_upper sample_fields observables =
     map (\<lambda>f. foldl (\<lambda>b ob. if field ob = f \<and> exclude ob then exclude_max ob else b) 0 observables)
       sample_fields"

text \<open>
  Lines 94--105: the two counters for event \<open>i\<close>, read from the current \<open>samples\<close>.
  \<open>excludes_total\<close> and \<open>excludes_cut\<close> are \<^verbatim>\<open>unsigned\<close>, so \<open>++\<close> wraps at \<open>2^32\<close>.
\<close>

fun count_excludes ::
  "real list \<Rightarrow> nat \<Rightarrow> bool list \<Rightarrow> real list \<Rightarrow> real list \<Rightarrow> nat \<Rightarrow> nat list
     \<Rightarrow> 32 word \<times> 32 word \<Rightarrow> 32 word \<times> 32 word" where
  "count_excludes samples nsf he lo hi i [] cnt = cnt"
| "count_excludes samples nsf he lo hi i (j # js) (excludes_total, excludes_cut) =
     (let v = samples ! (i * nsf + j) in
      if he ! j
      then count_excludes samples nsf he lo hi i js
             (excludes_total + 1,
              if v \<ge> lo ! j \<and> v \<le> hi ! j then excludes_cut + 1 else excludes_cut)
      else count_excludes samples nsf he lo hi i js (excludes_total, excludes_cut))"

text \<open>
  Lines 112--115: move event \<open>i\<close> to row \<open>sample_index\<close> of the same array, column by
  column; every read sees the writes made before it.
\<close>

fun move_event :: "nat \<Rightarrow> nat \<Rightarrow> nat \<Rightarrow> nat list \<Rightarrow> real list \<Rightarrow> real list option" where
  "move_event nsf i sample_index [] samples = Some samples"
| "move_event nsf i sample_index (j # js) samples =
     (if i * nsf + j < length samples \<and> sample_index * nsf + j < length samples
      then move_event nsf i sample_index js
             (samples[sample_index * nsf + j := samples ! (i * nsf + j)])
      else None)"

text \<open>Lines 117--119: the weight of event \<open>i\<close> follows its row.\<close>

definition move_weight :: "nat \<Rightarrow> nat \<Rightarrow> int list \<Rightarrow> int list option" where
  "move_weight i sample_index weights =
     (if length weights > 0
      then (if i < length weights \<and> sample_index < length weights
            then Some (weights[sample_index := weights ! i]) else None)
      else Some weights)"

text \<open>
  Lines 89--122: the loop over the events, on the state
  \<open>(samples, weights, sample_index)\<close>.
\<close>

fun exclusion_loop ::
  "nat \<Rightarrow> bool list \<Rightarrow> real list \<Rightarrow> real list \<Rightarrow> nat list \<Rightarrow> real list \<times> int list \<times> nat
     \<Rightarrow> (real list \<times> int list \<times> nat) option" where
  "exclusion_loop nsf he lo hi [] st = Some st"
| "exclusion_loop nsf he lo hi (i # is) (samples, weights, sample_index) =
     (case count_excludes samples nsf he lo hi i [0..<nsf] (0, 0) of
        (excludes_total, excludes_cut) \<Rightarrow>
          if excludes_total > 0 \<and> excludes_cut = excludes_total
          then exclusion_loop nsf he lo hi is (samples, weights, sample_index)
          else (case move_event nsf i sample_index [0..<nsf] samples of
                  None \<Rightarrow> None
                | Some samples' \<Rightarrow>
                    (case move_weight i sample_index weights of
                       None \<Rightarrow> None
                     | Some weights' \<Rightarrow>
                         exclusion_loop nsf he lo hi is
                           (samples', weights', Suc sample_index))))"

definition apply_exclusions ::
  "real list \<Rightarrow> string list \<Rightarrow> int list \<Rightarrow> Observable list
     \<Rightarrow> (real list \<times> int list) option" where
  "apply_exclusions samples sample_fields weights observables =
     (if length sample_fields = 0 then None
      else
        let nsf = length sample_fields;
            nsamples = length samples div nsf
        in case exclusion_loop nsf
                  (field_has_exclude sample_fields observables)
                  (field_exclude_lower sample_fields observables)
                  (field_exclude_upper sample_fields observables)
                  [0..<nsamples] (samples, weights, 0) of
             None \<Rightarrow> None
           | Some (samples', weights', sample_index) \<Rightarrow>
               Some (resize (sample_index * nsf) samples', resize sample_index weights'))"

subsection \<open>\<^verbatim>\<open>Signal::set_efficiency\<close> and the constructors\<close>








section \<open>The Metropolis controller of \<^verbatim>\<open>MCMC::operator()\<close>\<close>

text \<open>
  \<^verbatim>\<open>mcmc.h\<close> declares \<^verbatim>\<open>MCMC::operator()\<close> with the parameters \<open>data\<close>, \<open>nsteps\<close>,
  \<open>burnin_fraction\<close>, \<open>debug_mode\<close> (``if true, accept and save all steps'') and
  \<open>sync_interval\<close>; its body, the proposal kernel and the NLL kernels are not part of the
  sources.  The definitions of this section are therefore modelled from the specification
  (sections 3, 4.4 and 4.5).  The proposal generator, the NLL evaluator and the uniform
  random stream are parameters: \<open>propose i v\<close> is the candidate drawn at step \<open>i\<close> from the
  current vector \<open>v\<close>, \<open>nll v\<close> the negative log-likelihood at \<open>v\<close>, and \<open>uniform i\<close> the
  uniform draw of step \<open>i\<close>.
\<close>

text \<open>
  Modelled from the spec: the chain state (current accepted vector, its NLL, the running
  step index, the accepted and rejected counters) of the absent body of
  \<^verbatim>\<open>MCMC::operator()\<close>, together with the sample buffer of the chain recorder and the
  durable storage it is flushed to.
\<close>

record chain =
  current :: "real list"
  current_nll :: real
  step_index :: nat
  accepted :: nat
  rejected :: nat
  sample_buffer :: "(real list \<times> real) list"
  storage :: "(real list \<times> real) list"

text \<open>
  Modelled from the spec: the number of burn-in steps of the absent body of
  \<^verbatim>\<open>MCMC::operator()\<close>, \<open>floor(nsteps * burnin_fraction)\<close>.
\<close>

definition burnin_steps :: "nat \<Rightarrow> real \<Rightarrow> nat" where
  "burnin_steps nsteps burnin_fraction = nat \<lfloor>real nsteps * burnin_fraction\<rfloor>"

text \<open>
  Modelled from the spec: the acceptance rule of the absent jump kernel.  In debug mode
  every proposed step is accepted; otherwise the candidate is accepted unconditionally if
  \<open>nll' \<le> nll\<close>, and else when the uniform draw \<open>u\<close> falls below \<open>exp (nll - nll')\<close>
  (the spec does not say whether a draw equal to the bound accepts; it is taken not to).
\<close>

definition accept :: "bool \<Rightarrow> real \<Rightarrow> real \<Rightarrow> real \<Rightarrow> bool" where
  "accept debug_mode nll_current nll_proposed u =
     (if debug_mode then True
      else if nll_proposed \<le> nll_current then True
      else u < exp (nll_current - nll_proposed))"

text \<open>
  Modelled from the spec: the flush of the absent chain recorder, which copies the
  buffered block to durable storage and clears the buffer.
\<close>

definition flush :: "chain \<Rightarrow> chain" where
  "flush st = st\<lparr>storage := storage st @ sample_buffer st, sample_buffer := []\<rparr>"

text \<open>
  Modelled from the spec: one step of the absent walk loop.  The candidate is proposed and
  evaluated, the chain moves to it only when it is accepted, and after burn-in every
  accepted step (in debug mode every step) is appended to the sample buffer; the buffer is
  flushed every \<open>sync_interval\<close> steps.
\<close>

definition metropolis_step ::
  "(nat \<Rightarrow> real list \<Rightarrow> real list) \<Rightarrow> (real list \<Rightarrow> real) \<Rightarrow> (nat \<Rightarrow> real)
     \<Rightarrow> bool \<Rightarrow> nat \<Rightarrow> nat \<Rightarrow> chain \<Rightarrow> chain" where
  "metropolis_step propose nll uniform debug_mode burnin sync_interval st =
     (let i = step_index st;
          candidate = propose i (current st);
          nll' = nll candidate;
          acc = accept debug_mode (current_nll st) nll' (uniform i);
          st1 = (if acc
                 then st\<lparr>current := candidate, current_nll := nll', accepted := accepted st + 1\<rparr>
                 else st\<lparr>rejected := rejected st + 1\<rparr>);
          st2 = (if burnin \<le> i \<and> (acc \<or> debug_mode)
                 then st1\<lparr>sample_buffer := sample_buffer st1 @ [(current st1, current_nll st1)]\<rparr>
                 else st1);
          st3 = st2\<lparr>step_index := i + 1\<rparr>
      in if 0 < sync_interval \<and> (i + 1) mod sync_interval = 0 then flush st3 else st3)"

text \<open>
  Modelled from the spec: the state \<open>INIT\<close> of the absent walk, the chain at the parameter
  central values with its initial NLL and nothing recorded.
\<close>

definition init_chain :: "(real list \<Rightarrow> real) \<Rightarrow> real list \<Rightarrow> chain" where
  "init_chain nll parameter_means =
     \<lparr>current = parameter_means, current_nll = nll parameter_means, step_index = 0,
      accepted = 0, rejected = 0, sample_buffer = [], storage = []\<rparr>"

text \<open>
  Modelled from the spec: the chain of the absent walk after its first \<open>k\<close> steps.
\<close>

fun chain_after ::
  "(nat \<Rightarrow> real list \<Rightarrow> real list) \<Rightarrow> (real list \<Rightarrow> real) \<Rightarrow> (nat \<Rightarrow> real)
     \<Rightarrow> bool \<Rightarrow> nat \<Rightarrow> nat \<Rightarrow> real list \<Rightarrow> nat \<Rightarrow> chain" where
  "chain_after propose nll uniform debug_mode burnin sync_interval parameter_means 0 =
     init_chain nll parameter_means"
| "chain_after propose nll uniform debug_mode burnin sync_interval parameter_means (Suc k) =
     metropolis_step propose nll uniform debug_mode burnin sync_interval
       (chain_after propose nll uniform debug_mode burnin sync_interval parameter_means k)"

text \<open>
  Modelled from the spec: the samples recorded so far by the absent chain recorder,
  flushed or still buffered.
\<close>

definition recorded :: "chain \<Rightarrow> (real list \<times> real) list" where
  "recorded st = storage st @ sample_buffer st"

text \<open>
  Modelled from the spec: the absent body of \<^verbatim>\<open>MCMC::operator()\<close> as a whole.  After
  \<open>nsteps\<close> steps, of which the first \<open>floor(nsteps * burnin_fraction)\<close> are burn-in, the
  state \<open>DONE\<close> flushes the remaining samples; the samples in storage make up the
  likelihood space that is returned.
\<close>

definition walk ::
  "(nat \<Rightarrow> real list \<Rightarrow> real list) \<Rightarrow> (real list \<Rightarrow> real) \<Rightarrow> (nat \<Rightarrow> real)
     \<Rightarrow> real list \<Rightarrow> nat \<Rightarrow> real \<Rightarrow> bool \<Rightarrow> nat \<Rightarrow> (real list \<times> real) list" where
  "walk propose nll uniform parameter_means nsteps burnin_fraction debug_mode sync_interval =
     storage (flush (chain_after propose nll uniform debug_mode
                       (burnin_steps nsteps burnin_fraction) sync_interval parameter_means nsteps))"

section \<open>Specification-side predicates for \<^verbatim>\<open>signals.cpp\<close>\<close>

text \<open>The cut that applies to a dataset field: the last cut listed for it, if any.\<close>

definition last_cut :: "Observable list \<Rightarrow> string \<Rightarrow> Observable option" where
  "last_cut cuts f =
     (let cs = filter (\<lambda>c. field c = f) cuts in if cs = [] then None else Some (last cs))"

text \<open>
  Event \<open>i\<close> satisfies every cut: in each dataset column that has a cut, its value lies in
  the closed interval of that cut.
\<close>

definition satisfies_cuts :: "ieee list \<Rightarrow> string list \<Rightarrow> Observable list \<Rightarrow> nat \<Rightarrow> bool" where
  "satisfies_cuts dataset dataset_fields cuts i =
     (\<forall>j\<in>{0..<length dataset_fields}.
        case last_cut cuts (dataset_fields ! j) of
          None \<Rightarrow> True
        | Some c \<Rightarrow> ieee_le (lower c) (dataset ! (i * length dataset_fields + j))
                  \<and> ieee_le (dataset ! (i * length dataset_fields + j)) (upper c))"

text \<open>
  No NaN takes part in a cut: in each dataset column that has a cut, neither a bound of
  that cut nor the value of any event is NaN.
\<close>

definition cuts_free_of_nan :: "ieee list \<Rightarrow> string list \<Rightarrow> Observable list \<Rightarrow> bool" where
  "cuts_free_of_nan dataset dataset_fields cuts =
     (\<forall>j\<in>{0..<length dataset_fields}.
        case last_cut cuts (dataset_fields ! j) of
          None \<Rightarrow> True
        | Some c \<Rightarrow> lower c \<noteq> NaN \<and> upper c \<noteq> NaN
                  \<and> (\<forall>i\<in>{0..<length dataset div length dataset_fields}.
                        dataset ! (i * length dataset_fields + j) \<noteq> NaN))"

text \<open>The events of the dataset that satisfy every cut, in dataset order.\<close>

definition retained_events :: "ieee list \<Rightarrow> string list \<Rightarrow> Observable list \<Rightarrow> nat list" where
  "retained_events dataset dataset_fields cuts =
     filter (satisfies_cuts dataset dataset_fields cuts)
       [0..<length dataset div length dataset_fields]"

text \<open>
  The sample row of event \<open>i\<close>: for each sample field, the value in the first dataset
  column of that name.
\<close>

definition dataset_row :: "ieee list \<Rightarrow> string list \<Rightarrow> string list \<Rightarrow> nat \<Rightarrow> ieee list" where
  "dataset_row dataset dataset_fields sample_fields i =
     map (\<lambda>s. dataset ! (i * length dataset_fields + find_index dataset_fields s)) sample_fields"

text \<open>
  The exclusion region of a sample field: the bounds of the last observable on that field
  whose \<open>exclude\<close> flag is set, if any.
\<close>

definition exclusion_region :: "Observable list \<Rightarrow> string \<Rightarrow> (real \<times> real) option" where
  "exclusion_region observables f =
     (let os = filter (\<lambda>ob. field ob = f \<and> exclude ob) observables
      in if os = [] then None else Some (exclude_min (last os), exclude_max (last os)))"

text \<open>
  Event \<open>i\<close> is excluded: some sample field has an exclusion region, and in every field
  that has one the event's value lies inside it.
\<close>

definition event_excluded :: "real list \<Rightarrow> string list \<Rightarrow> Observable list \<Rightarrow> nat \<Rightarrow> bool" where
  "event_excluded samples sample_fields observables i =
     ((\<exists>j\<in>{0..<length sample_fields}.
         exclusion_region observables (sample_fields ! j) \<noteq> None)
      \<and> (\<forall>j\<in>{0..<length sample_fields}.
            case exclusion_region observables (sample_fields ! j) of
              None \<Rightarrow> True
            | Some (a, b) \<Rightarrow> a \<le> samples ! (i * length sample_fields + j)
                           \<and> samples ! (i * length sample_fields + j) \<le> b))"

definition surviving_events :: "real list \<Rightarrow> string list \<Rightarrow> Observable list \<Rightarrow> nat list" where
  "surviving_events samples sample_fields observables =
     filter (\<lambda>i. \<not> event_excluded samples sample_fields observables i)
       [0..<length samples div length sample_fields]"

definition samples_row :: "real list \<Rightarrow> nat \<Rightarrow> nat \<Rightarrow> real list" where
  "samples_row samples nsf i = map (\<lambda>j. samples ! (i * nsf + j)) [0..<nsf]"


text \<open>
  The loop invariant of \<^verbatim>\<open>apply_exclusions\<close> after the first \<open>m\<close> events: the first \<open>k\<close>
  rows (and weights) are those of the surviving events among them, and the rows (and
  weights) from \<open>m\<close> on are untouched.
\<close>

definition exclusion_inv ::
  "real list \<Rightarrow> string list \<Rightarrow> int list \<Rightarrow> Observable list \<Rightarrow> nat
     \<Rightarrow> real list \<times> int list \<times> nat \<Rightarrow> bool" where
  "exclusion_inv samples sample_fields weights observables m st =
     (case st of (s, w, k) \<Rightarrow>
        let nsf = length sample_fields;
            kept = filter (\<lambda>i. \<not> event_excluded samples sample_fields observables i) [0..<m]
        in k = length kept
           \<and> length s = length samples
           \<and> take (k * nsf) s = concat (map (samples_row samples nsf) kept)
           \<and> drop (m * nsf) s = drop (m * nsf) samples
           \<and> length w = length weights
           \<and> (weights \<noteq> [] \<longrightarrow>
                 take k w = map (\<lambda>i. weights ! i) kept \<and> drop m w = drop m weights))"

section \<open>Verification of \<^verbatim>\<open>Signal::read_dataset_to_samples\<close>\<close>

lemma resize_length: "length (resize n xs) = n"
  by (simp add: resize_def)

lemma last_cut_snoc:
  "last_cut (cuts @ [c]) f = (if field c = f then Some c else last_cut cuts f)"
  by (simp add: last_cut_def)

lemma has_cut_foldl:
  "foldl (\<lambda>b c. if field c = f then True else b) False cuts = (last_cut cuts f \<noteq> None)"
  by (induction cuts rule: rev_induct) (simp_all add: last_cut_snoc, simp add: last_cut_def)

lemma cut_lower_foldl:
  "foldl (\<lambda>b c. if field c = f then lower c else b) 0 cuts =
     (case last_cut cuts f of None \<Rightarrow> 0 | Some c \<Rightarrow> lower c)"
  by (induction cuts rule: rev_induct) (simp_all add: last_cut_snoc, simp add: last_cut_def)

lemma cut_upper_foldl:
  "foldl (\<lambda>b c. if field c = f then upper c else b) 0 cuts =
     (case last_cut cuts f of None \<Rightarrow> 0 | Some c \<Rightarrow> upper c)"
  by (induction cuts rule: rev_induct) (simp_all add: last_cut_snoc, simp add: last_cut_def)

text \<open>The loop with \<open>break\<close> computes a universal statement over the columns.\<close>

lemma event_valid_iff:
  "event_valid dataset nf hc lo hi i js =
     (\<forall>j\<in>set js. \<not> (hc ! j \<and> (ieee_less (dataset ! (i * nf + j)) (lo ! j)
                                   \<or> ieee_less (hi ! j) (dataset ! (i * nf + j)))))"
  by (induction js) (auto simp: Let_def)

text \<open>
  Away from NaN, \<open>a <= b\<close> is the negation of \<open>b < a\<close>; so an event that no cut
  invalidates lies in the interval of every cut, unless a NaN takes part.
\<close>

lemma ieee_le_iff_not_less:
  "a \<noteq> NaN \<Longrightarrow> b \<noteq> NaN \<Longrightarrow> ieee_le a b = (\<not> ieee_less b a)"
  by (cases a; cases b) auto

lemma event_valid_satisfies_cuts:
  assumes "cuts_free_of_nan dataset dataset_fields cuts"
    and "i < length dataset div length dataset_fields"
  shows "event_valid dataset (length dataset_fields) (field_has_cut dataset_fields cuts)
           (field_cut_lower dataset_fields cuts) (field_cut_upper dataset_fields cuts) i
           [0..<length dataset_fields] = satisfies_cuts dataset dataset_fields cuts i"
proof -
  let ?nf = "length dataset_fields"
  have col: "(\<not> (field_has_cut dataset_fields cuts ! j
                \<and> (ieee_less (dataset ! (i * ?nf + j)) (field_cut_lower dataset_fields cuts ! j)
                    \<or> ieee_less (field_cut_upper dataset_fields cuts ! j) (dataset ! (i * ?nf + j)))))
             = (case last_cut cuts (dataset_fields ! j) of
                  None \<Rightarrow> True
                | Some c \<Rightarrow> ieee_le (lower c) (dataset ! (i * ?nf + j))
                          \<and> ieee_le (dataset ! (i * ?nf + j)) (upper c))"
    if j: "j < ?nf" for j
  proof (cases "last_cut cuts (dataset_fields ! j)")
    case None
    with j show ?thesis
      by (simp add: field_has_cut_def has_cut_foldl)
  next
    case (Some c)
    from assms j Some have nn: "lower c \<noteq> NaN" "upper c \<noteq> NaN"
      "dataset ! (i * ?nf + j) \<noteq> NaN"
      by (auto simp: cuts_free_of_nan_def split: option.splits)
    from j Some have "field_has_cut dataset_fields cuts ! j"
      and "field_cut_lower dataset_fields cuts ! j = lower c"
      and "field_cut_upper dataset_fields cuts ! j = upper c"
      by (simp_all add: field_has_cut_def field_cut_lower_def field_cut_upper_def
            has_cut_foldl cut_lower_foldl cut_upper_foldl)
    with Some nn show ?thesis
      by (simp add: ieee_le_iff_not_less)
  qed
  show ?thesis
    unfolding event_valid_iff satisfies_cuts_def using col by simp
qed

text \<open>A successful copy performed every write in range; it is a \<open>fold\<close> of updates.\<close>

lemma copy_event_Some:
  "copy_event dataset nf smap nsf i k js samples = Some s' \<Longrightarrow>
     s' = fold (\<lambda>j s. s[k * nsf + j := dataset ! (i * nf + smap ! j)]) js samples
     \<and> (\<forall>j\<in>set js. i * nf + smap ! j < length dataset \<and> k * nsf + j < length samples)"
proof (induction js arbitrary: samples)
  case Nil
  then show ?case by simp
next
  case (Cons j js)
  from Cons.prems have ok: "i * nf + smap ! j < length dataset" "k * nsf + j < length samples"
    by (auto split: if_splits)
  with Cons.prems have
    "copy_event dataset nf smap nsf i k js
       (samples[k * nsf + j := dataset ! (i * nf + smap ! j)]) = Some s'"
    by simp
  from Cons.IH [OF this] ok show ?case by simp
qed

lemma copy_event_defined:
  "\<forall>j\<in>set js. i * nf + smap ! j < length dataset \<and> k * nsf + j < length samples \<Longrightarrow>
     \<exists>s'. copy_event dataset nf smap nsf i k js samples = Some s'"
  by (induction js arbitrary: samples) auto

lemma fold_update_upt:
  "b + n \<le> length xs \<Longrightarrow>
     fold (\<lambda>j s. s[b + j := g j]) [0..<n] xs = take b xs @ map g [0..<n] @ drop (b + n) xs"
proof (induction n)
  case 0
  then show ?case by simp
next
  case (Suc n)
  then have le: "b + n < length xs" by simp
  have "fold (\<lambda>j s. s[b + j := g j]) [0..<Suc n] xs =
          (take b xs @ map g [0..<n] @ drop (b + n) xs)[b + n := g n]"
    using Suc by simp
  also have "\<dots> = take b xs @ map g [0..<n] @ (drop (b + n) xs)[0 := g n]"
    using le by (simp add: list_update_append)
  also have "(drop (b + n) xs)[0 := g n] = g n # drop (b + Suc n) xs"
    using le by (metis Cons_nth_drop_Suc add_Suc_right list_update_code(2))
  finally show ?case by simp
qed

lemma copy_event_row:
  assumes "copy_event dataset nf smap nsf i k [0..<nsf] samples = Some s'"
  shows "length s' = length samples"
    and "k * nsf + nsf \<le> length samples \<or> nsf = 0"
    and "take (Suc k * nsf) s' =
           take (k * nsf) samples @ map (\<lambda>j. dataset ! (i * nf + smap ! j)) [0..<nsf]"
proof -
  from copy_event_Some [OF assms] have
    s': "s' = fold (\<lambda>j s. s[k * nsf + j := dataset ! (i * nf + smap ! j)]) [0..<nsf] samples"
    and rng: "\<forall>j\<in>set [0..<nsf]. k * nsf + j < length samples"
    by auto
  show bound: "k * nsf + nsf \<le> length samples \<or> nsf = 0"
  proof (cases nsf)
    case 0
    then show ?thesis by simp
  next
    case (Suc m)
    with rng have "k * nsf + m < length samples" by simp
    with Suc show ?thesis by simp
  qed
  show "length s' = length samples"
  proof -
    have "length (fold (\<lambda>j s. s[k * nsf + j := g j]) js xs) = length xs"
      for g js and xs :: "ieee list"
      by (induction js arbitrary: xs) simp_all
    then show ?thesis unfolding s' .
  qed
  show "take (Suc k * nsf) s' =
          take (k * nsf) samples @ map (\<lambda>j. dataset ! (i * nf + smap ! j)) [0..<nsf]"
  proof (cases "nsf = 0")
    case True
    then show ?thesis by simp
  next
    case False
    with bound have le: "k * nsf + nsf \<le> length samples" by simp
    have "s' = take (k * nsf) samples @ map (\<lambda>j. dataset ! (i * nf + smap ! j)) [0..<nsf]
                 @ drop (k * nsf + nsf) samples"
      unfolding s' by (rule fold_update_upt [OF le])
    moreover have "length (take (k * nsf) samples) = k * nsf" using le by simp
    ultimately show ?thesis by simp
  qed
qed

text \<open>
  The event loop: started with \<open>k\<close> rows filled, it appends the rows of the valid events
  of \<open>is\<close>, in order, and counts them.
\<close>

lemma read_events_Some:
  assumes "read_events dataset nf hc lo hi smap nsf is (samples, k) = Some (s', k')"
  shows "k' = k + length (filter (\<lambda>i. event_valid dataset nf hc lo hi i [0..<nf]) is)
         \<and> length s' = length samples
         \<and> take (k' * nsf) s' =
             take (k * nsf) samples @
             concat (map (\<lambda>i. map (\<lambda>j. dataset ! (i * nf + smap ! j)) [0..<nsf])
                        (filter (\<lambda>i. event_valid dataset nf hc lo hi i [0..<nf]) is))"
  using assms
proof (induction "is" arbitrary: samples k)
  case Nil
  then show ?case by simp
next
  case (Cons i "is")
  show ?case
  proof (cases "event_valid dataset nf hc lo hi i [0..<nf]")
    case False
    with Cons.prems have
      "read_events dataset nf hc lo hi smap nsf is (samples, k) = Some (s', k')"
      by simp
    from Cons.IH [OF this] False show ?thesis by auto
  next
    case True
    with Cons.prems obtain s1 where
      c: "copy_event dataset nf smap nsf i k [0..<nsf] samples = Some s1" and
      r: "read_events dataset nf hc lo hi smap nsf is (s1, Suc k) = Some (s', k')"
      by (auto split: option.splits)
    from Cons.IH [OF r] copy_event_row(1,3) [OF c] True show ?thesis by auto
  qed
qed

lemma find_index_mem:
  "x \<in> set xs \<Longrightarrow> find_index xs x < length xs \<and> xs ! find_index xs x = x"
  by (induction xs) auto

lemma row_index_bound:
  assumes "i < n div nf" and "m < nf"
  shows "i * nf + m < (n::nat)"
proof -
  from assms(1) have "Suc i * nf \<le> (n div nf) * nf"
    by (intro mult_le_mono1) simp
  also have "\<dots> \<le> n" by simp
  finally show ?thesis using assms(2) by simp
qed

lemma length_concat_rows:
  "(\<And>x. length (f x) = n) \<Longrightarrow> length (concat (map f xs)) = length xs * n"
  by (induction xs) simp_all

lemma map_nth_upt: "map (\<lambda>j. h (xs ! j)) [0..<length xs] = map h xs"
proof -
  have "map h (map ((!) xs) [0..<length xs]) = map h xs"
    by (simp only: map_nth)
  then show ?thesis
    by (simp only: map_map comp_def)
qed

text \<open>
  The function returns (no read or write out of range) whenever the dataset has a column
  for every sample field and \<open>samples\<close> was sized for all events of the dataset, as the
  constructor sizes it.
\<close>

lemma read_events_defined:
  assumes "\<forall>i\<in>set is. \<forall>j<nsf. i * nf + smap ! j < length dataset"
    and "(k + length is) * nsf \<le> length samples"
  shows "\<exists>st. read_events dataset nf hc lo hi smap nsf is (samples, k) = Some st"
  using assms
proof (induction "is" arbitrary: samples k)
  case Nil
  then show ?case by simp
next
  case (Cons i "is")
  show ?case
  proof (cases "event_valid dataset nf hc lo hi i [0..<nf]")
    case False
    have "(k + length is) * nsf \<le> (k + length (i # is)) * nsf"
      by (intro mult_le_mono1) simp
    with Cons.prems have "(k + length is) * nsf \<le> length samples" by linarith
    with Cons.IH [of k samples] Cons.prems(1) False show ?thesis by simp
  next
    case True
    have "k * nsf + j < length samples" if "j < nsf" for j
    proof -
      have "k * nsf + j < Suc k * nsf" using that by simp
      also have "\<dots> \<le> (k + length (i # is)) * nsf"
        by (intro mult_le_mono1) simp
      finally show ?thesis using Cons.prems(2) by linarith
    qed
    with Cons.prems(1) have
      "\<forall>j\<in>set [0..<nsf]. i * nf + smap ! j < length dataset \<and> k * nsf + j < length samples"
      by simp
    from copy_event_defined [OF this] obtain s1 where
      c: "copy_event dataset nf smap nsf i k [0..<nsf] samples = Some s1" by blast
    from copy_event_row(1) [OF c] Cons.prems(2) have
      "(Suc k + length is) * nsf \<le> length s1" by simp
    with Cons.IH [of "Suc k" s1] Cons.prems(1) obtain st where
      "read_events dataset nf hc lo hi smap nsf is (s1, Suc k) = Some st" by auto
    with c True show ?thesis by simp
  qed
qed

lemma read_dataset_to_samples_defined:
  assumes "dataset_fields \<noteq> []" and "set sample_fields \<subseteq> set dataset_fields"
    and "(length dataset div length dataset_fields) * length sample_fields \<le> length samples"
  shows "\<exists>out. read_dataset_to_samples samples dataset sample_fields dataset_fields cuts
           = Some out"
proof -
  let ?nf = "length dataset_fields" and ?nsf = "length sample_fields"
  let ?smap = "sample_to_dataset_map sample_fields dataset_fields"
  have "i * ?nf + ?smap ! j < length dataset"
    if "i < length dataset div ?nf" and "j < ?nsf" for i j
  proof -
    from that(2) assms(2) have "sample_fields ! j \<in> set dataset_fields" by auto
    then have "?smap ! j < ?nf"
      using that(2) by (simp add: sample_to_dataset_map_def find_index_mem)
    with that(1) show ?thesis by (rule row_index_bound)
  qed
  then have "\<forall>i\<in>set [0..<length dataset div ?nf]. \<forall>j<?nsf.
               i * ?nf + ?smap ! j < length dataset" by simp
  moreover have "(0 + length [0..<length dataset div ?nf]) * ?nsf \<le> length samples"
    using assms(3) by simp
  ultimately obtain st where
    "read_events dataset ?nf (field_has_cut dataset_fields cuts)
       (field_cut_lower dataset_fields cuts) (field_cut_upper dataset_fields cuts)
       ?smap ?nsf [0..<length dataset div ?nf] (samples, 0) = Some st"
    using read_events_defined by blast
  with assms(1) show ?thesis
    by (cases st) (simp add: read_dataset_to_samples_def)
qed

text \<open>
  What a returning call leaves in \<open>samples\<close>, for every input: the rows of the events that
  \<open>event_valid\<close> accepts, in dataset order, each row read at the offsets of
  \<open>sample_to_dataset_map\<close>.
\<close>

lemma read_dataset_to_samples_Some:
  assumes "read_dataset_to_samples samples dataset sample_fields dataset_fields cuts = Some out"
  shows "out = concat (map (dataset_row dataset dataset_fields sample_fields)
                  (filter (\<lambda>i. event_valid dataset (length dataset_fields)
                                 (field_has_cut dataset_fields cuts)
                                 (field_cut_lower dataset_fields cuts)
                                 (field_cut_upper dataset_fields cuts) i
                                 [0..<length dataset_fields])
                     [0..<length dataset div length dataset_fields]))"
proof -
  let ?nf = "length dataset_fields" and ?nsf = "length sample_fields"
  let ?smap = "sample_to_dataset_map sample_fields dataset_fields"
  let ?hc = "field_has_cut dataset_fields cuts"
  let ?lo = "field_cut_lower dataset_fields cuts"
  let ?hi = "field_cut_upper dataset_fields cuts"
  let ?kept = "filter (\<lambda>i. event_valid dataset ?nf ?hc ?lo ?hi i [0..<?nf])
                 [0..<length dataset div ?nf]"
  from assms obtain s' k' where
    ev: "read_events dataset ?nf ?hc ?lo ?hi ?smap ?nsf [0..<length dataset div ?nf] (samples, 0)
           = Some (s', k')" and
    out: "out = resize (k' * ?nsf) s'"
    by (auto simp: read_dataset_to_samples_def Let_def split: if_splits option.splits)
  have row: "(\<lambda>i. map (\<lambda>j. dataset ! (i * ?nf + ?smap ! j)) [0..<?nsf])
               = dataset_row dataset dataset_fields sample_fields"
  proof (rule ext)
    fix i
    have "map (\<lambda>j. dataset ! (i * ?nf + ?smap ! j)) [0..<?nsf] =
            map (\<lambda>j. dataset ! (i * ?nf + find_index dataset_fields (sample_fields ! j))) [0..<?nsf]"
      by (simp add: sample_to_dataset_map_def)
    also have "\<dots> = dataset_row dataset dataset_fields sample_fields i"
      unfolding dataset_row_def by (rule map_nth_upt)
    finally show "map (\<lambda>j. dataset ! (i * ?nf + ?smap ! j)) [0..<?nsf] =
                    dataset_row dataset dataset_fields sample_fields i" .
  qed
  from read_events_Some [OF ev] have
    k': "k' = length ?kept" and
    tk: "take (k' * ?nsf) s' = concat (map (dataset_row dataset dataset_fields sample_fields) ?kept)"
    unfolding row by auto
  have len: "length (concat (map (dataset_row dataset dataset_fields sample_fields) ?kept))
               = length ?kept * ?nsf"
    by (rule length_concat_rows) (simp add: dataset_row_def)
  from tk len k' have "length (take (k' * ?nsf) s') = k' * ?nsf"
    by simp
  then have "k' * ?nsf \<le> length s'"
    by simp
  with out tk show ?thesis
    by (simp add: resize_def)
qed

text \<open>
  \<^bold>\<open>Claim C9\<close>, as stated, fails in three ways.  A NaN value passes a cut, since both
  \<open>data < lower\<close> and \<open>data > upper\<close> are false: of the two events \<open>NaN\<close> and \<open>2.5\<close> with
  the cut \<open>2 \<le> a \<le> 3\<close> both are retained, and the first does not satisfy the cut.  A NaN
  bound cuts nothing: with the cut \<open>[NaN, NaN]\<close> the event \<open>5\<close> is retained.  And a
  sample field that is no dataset field is read one column past the event: of the events
  \<open>1\<close> and \<open>2\<close> in the one column \<open>a\<close> with the cut \<open>0 \<le> a \<le> 1.5\<close> only the first is
  retained, and the sample field \<open>z\<close> receives \<open>2\<close>, the value of the event that was cut.
\<close>

theorem read_dataset_to_samples_counterexample:
  "read_dataset_to_samples [0, 0] [NaN, Num (5 / 2)] [''a''] [''a'']
     [\<lparr>field = ''a'', lower = Num 2, upper = Num 3, exclude = False,
        exclude_min = 0, exclude_max = 0\<rparr>]
     = Some [NaN, Num (5 / 2)]
   \<and> \<not> satisfies_cuts [NaN, Num (5 / 2)] [''a'']
          [\<lparr>field = ''a'', lower = Num 2, upper = Num 3, exclude = False,
             exclude_min = 0, exclude_max = 0\<rparr>] 0
   \<and> read_dataset_to_samples [0] [Num 5] [''a''] [''a'']
       [\<lparr>field = ''a'', lower = NaN, upper = NaN, exclude = False,
          exclude_min = 0, exclude_max = 0\<rparr>]
       = Some [Num 5]
   \<and> \<not> satisfies_cuts [Num 5] [''a'']
          [\<lparr>field = ''a'', lower = NaN, upper = NaN, exclude = False,
             exclude_min = 0, exclude_max = 0\<rparr>] 0
   \<and> read_dataset_to_samples [0, 0] [Num 1, Num 2] [''z''] [''a'']
       [\<lparr>field = ''a'', lower = Num 0, upper = Num (3 / 2), exclude = False,
          exclude_min = 0, exclude_max = 0\<rparr>]
       = Some [Num 2]
   \<and> ''z'' \<notin> set [''a'']
   \<and> retained_events [Num 1, Num 2] [''a'']
         [\<lparr>field = ''a'', lower = Num 0, upper = Num (3 / 2), exclude = False,
            exclude_min = 0, exclude_max = 0\<rparr>] = [0]"
  by code_simp

text \<open>
  \<^bold>\<open>Claim C9\<close>, amended.  Let every sample field be the name of a dataset field, and let
  no NaN take part in a cut (in each dataset field that has a cut, neither the bounds of the
  last cut listed for that field nor any event's value is NaN).  Then, whenever
  \<^verbatim>\<open>read_dataset_to_samples\<close> returns, the \<open>samples\<close> array consists of the rows of exactly
  those dataset events that satisfy every cut (for each dataset field with a cut, the value
  lies in the closed interval of the last cut listed for that field), in dataset order;
  each row holds, for every sample field, the value of the first dataset column of the same
  name; and the size of \<open>samples\<close> is the number of passing events times the number of
  sample fields.
\<close>

theorem read_dataset_to_samples_postcondition:
  assumes "read_dataset_to_samples samples dataset sample_fields dataset_fields cuts = Some out"
    and "set sample_fields \<subseteq> set dataset_fields"
    and "cuts_free_of_nan dataset dataset_fields cuts"
  shows "out = concat (map (dataset_row dataset dataset_fields sample_fields)
                        (retained_events dataset dataset_fields cuts))
         \<and> length out = length (retained_events dataset dataset_fields cuts) * length sample_fields
         \<and> (\<forall>i\<in>set (retained_events dataset dataset_fields cuts).
               satisfies_cuts dataset dataset_fields cuts i)
         \<and> (\<forall>s\<in>set sample_fields.
               find_index dataset_fields s < length dataset_fields
               \<and> dataset_fields ! find_index dataset_fields s = s)"
proof -
  let ?nf = "length dataset_fields" and ?nsf = "length sample_fields"
  let ?kept = "retained_events dataset dataset_fields cuts"
  have "filter (\<lambda>i. event_valid dataset ?nf (field_has_cut dataset_fields cuts)
                      (field_cut_lower dataset_fields cuts)
                      (field_cut_upper dataset_fields cuts) i [0..<?nf])
          [0..<length dataset div ?nf] = ?kept"
    unfolding retained_events_def
    by (rule filter_cong) (simp_all add: event_valid_satisfies_cuts [OF assms(3)])
  with read_dataset_to_samples_Some [OF assms(1)] have
    eq: "out = concat (map (dataset_row dataset dataset_fields sample_fields) ?kept)"
    by simp
  have len: "length (concat (map (dataset_row dataset dataset_fields sample_fields) ?kept))
               = length ?kept * ?nsf"
    by (rule length_concat_rows) (simp add: dataset_row_def)
  have sat: "\<forall>i\<in>set ?kept. satisfies_cuts dataset dataset_fields cuts i"
    by (simp add: retained_events_def)
  have names: "\<forall>s\<in>set sample_fields.
                 find_index dataset_fields s < length dataset_fields
                 \<and> dataset_fields ! find_index dataset_fields s = s"
    using assms(2) by (auto simp: find_index_mem)
  from eq len have "length out = length ?kept * ?nsf"
    by (simp only:)
  with eq sat names show ?thesis
    by blast
qed

text \<open>
  The theorem at a dataset of three events with columns \<open>a\<close> and \<open>b\<close>, the cut
  \<open>2 \<le> a \<le> 3\<close>, and the one sample field \<open>b\<close>: the second and third event pass.
\<close>

theorem read_dataset_to_samples_postcondition_witness:
  "read_dataset_to_samples [0, 0, 0] [Num 1, Num 5, Num 2, Num 7, Num 3, Num 9] [''b'']
     [''a'', ''b'']
     [\<lparr>field = ''a'', lower = Num 2, upper = Num 3, exclude = False,
        exclude_min = 0, exclude_max = 0\<rparr>]
     = Some [Num 7, Num 9]
   \<and> set [''b''] \<subseteq> set [''a'', ''b'']
   \<and> cuts_free_of_nan [Num 1, Num 5, Num 2, Num 7, Num 3, Num 9] [''a'', ''b'']
        [\<lparr>field = ''a'', lower = Num 2, upper = Num 3, exclude = False,
           exclude_min = 0, exclude_max = 0\<rparr>]
   \<and> [Num 7, Num 9] =
       concat (map (dataset_row [Num 1, Num 5, Num 2, Num 7, Num 3, Num 9] [''a'', ''b''] [''b''])
         (retained_events [Num 1, Num 5, Num 2, Num 7, Num 3, Num 9] [''a'', ''b'']
            [\<lparr>field = ''a'', lower = Num 2, upper = Num 3, exclude = False,
               exclude_min = 0, exclude_max = 0\<rparr>]))
   \<and> retained_events [Num 1, Num 5, Num 2, Num 7, Num 3, Num 9] [''a'', ''b'']
          [\<lparr>field = ''a'', lower = Num 2, upper = Num 3, exclude = False,
             exclude_min = 0, exclude_max = 0\<rparr>] = [1, 2]"
proof -
  have h: "read_dataset_to_samples [0, 0, 0] [Num 1, Num 5, Num 2, Num 7, Num 3, Num 9] [''b'']
     [''a'', ''b'']
     [\<lparr>field = ''a'', lower = Num 2, upper = Num 3, exclude = False,
        exclude_min = 0, exclude_max = 0\<rparr>]
     = Some [Num 7, Num 9]"
    by code_simp
  have f: "set [''b''] \<subseteq> set [''a'', ''b'']"
    by simp
  have n: "cuts_free_of_nan [Num 1, Num 5, Num 2, Num 7, Num 3, Num 9] [''a'', ''b'']
        [\<lparr>field = ''a'', lower = Num 2, upper = Num 3, exclude = False,
           exclude_min = 0, exclude_max = 0\<rparr>]"
    by code_simp
  have r: "retained_events [Num 1, Num 5, Num 2, Num 7, Num 3, Num 9] [''a'', ''b'']
          [\<lparr>field = ''a'', lower = Num 2, upper = Num 3, exclude = False,
             exclude_min = 0, exclude_max = 0\<rparr>] = [1, 2]"
    by code_simp
  from read_dataset_to_samples_postcondition [OF h f n] h f n r show ?thesis
    by blast
qed

section \<open>Verification of \<^verbatim>\<open>Signal::apply_exclusions\<close>\<close>

lemma exclusion_region_snoc:
  "exclusion_region (obs @ [ob]) f =
     (if field ob = f \<and> exclude ob then Some (exclude_min ob, exclude_max ob)
      else exclusion_region obs f)"
  by (simp add: exclusion_region_def)

lemma has_exclude_foldl:
  "foldl (\<lambda>b ob. if field ob = f \<and> exclude ob then True else b) False obs =
     (exclusion_region obs f \<noteq> None)"
  by (induction obs rule: rev_induct) (simp_all add: exclusion_region_snoc, simp add: exclusion_region_def)

lemma exclude_lower_foldl:
  "foldl (\<lambda>b ob. if field ob = f \<and> exclude ob then exclude_min ob else b) 0 obs =
     (case exclusion_region obs f of None \<Rightarrow> 0 | Some (a, b) \<Rightarrow> a)"
  by (induction obs rule: rev_induct) (simp_all add: exclusion_region_snoc, simp add: exclusion_region_def)

lemma exclude_upper_foldl:
  "foldl (\<lambda>b ob. if field ob = f \<and> exclude ob then exclude_max ob else b) 0 obs =
     (case exclusion_region obs f of None \<Rightarrow> 0 | Some (a, b) \<Rightarrow> b)"
  by (induction obs rule: rev_induct) (simp_all add: exclusion_region_snoc, simp add: exclusion_region_def)

lemma unat_incr:
  fixes w :: "32 word"
  assumes "unat w + 1 < 2 ^ 32"
  shows "unat (w + 1) = unat w + 1"
proof -
  have "unat w + unat (1 :: 32 word) < 2 ^ LENGTH(32)"
    using assms by simp
  then have "unat (w + 1) = unat w + unat (1 :: 32 word)"
    by (simp only: unat_add_lem)
  then show ?thesis by simp
qed

lemma count_excludes_unat:
  assumes "count_excludes samples nsf he lo hi i js (t, c) = (t', c')"
    and "unat t + length js < 2 ^ 32" and "unat c \<le> unat t"
  shows "unat t' = unat t + length (filter (\<lambda>j. he ! j) js)
         \<and> unat c' = unat c + length (filter (\<lambda>j. he ! j \<and> lo ! j \<le> samples ! (i * nsf + j)
                                                       \<and> samples ! (i * nsf + j) \<le> hi ! j) js)"
  using assms
proof (induction js arbitrary: t c)
  case Nil
  then show ?case by simp
next
  case (Cons j js)
  from Cons.prems(2) have t1: "unat (t + 1) = unat t + 1"
    by (intro unat_incr) simp
  from Cons.prems(2,3) have c1: "unat (c + 1) = unat c + 1"
    by (intro unat_incr) simp
  show ?case
  proof (cases "he ! j")
    case False
    with Cons.prems have "count_excludes samples nsf he lo hi i js (t, c) = (t', c')"
      and "unat t + length js < 2 ^ 32"
      by (simp_all add: Let_def)
    from Cons.IH [OF this Cons.prems(3)] False show ?thesis by simp
  next
    case he: True
    show ?thesis
    proof (cases "lo ! j \<le> samples ! (i * nsf + j) \<and> samples ! (i * nsf + j) \<le> hi ! j")
      case True
      with he Cons.prems have "count_excludes samples nsf he lo hi i js (t + 1, c + 1) = (t', c')"
        and "unat (t + 1) + length js < 2 ^ 32" and "unat (c + 1) \<le> unat (t + 1)"
        by (simp_all add: Let_def t1 c1)
      from Cons.IH [OF this] he True show ?thesis by (simp add: t1 c1)
    next
      case False
      with he Cons.prems have "count_excludes samples nsf he lo hi i js (t + 1, c) = (t', c')"
        and "unat (t + 1) + length js < 2 ^ 32" and "unat c \<le> unat (t + 1)"
        by (auto simp add: Let_def t1)
      from Cons.IH [OF this] he False show ?thesis by (auto simp add: t1)
    qed
  qed
qed

lemma filter_conj_length_le:
  "length (filter (\<lambda>x. P x \<and> Q x) xs) \<le> length (filter P xs)"
  by (induction xs) auto

lemma filter_conj_length_eq:
  "length (filter (\<lambda>x. P x \<and> Q x) xs) = length (filter P xs) \<longleftrightarrow> (\<forall>x\<in>set xs. P x \<longrightarrow> Q x)"
proof (induction xs)
  case Nil
  then show ?case by simp
next
  case (Cons x xs)
  have "length (filter (\<lambda>x. P x \<and> Q x) xs) \<le> length (filter P xs)"
    by (rule filter_conj_length_le)
  with Cons show ?case by auto
qed

lemma count_excludes_decision:
  assumes "count_excludes samples nsf he lo hi i js (0, 0) = (t', c')"
    and "length js < 2 ^ 32"
  shows "(t' > 0 \<and> c' = t') \<longleftrightarrow>
           (\<exists>j\<in>set js. he ! j) \<and>
           (\<forall>j\<in>set js. he ! j \<longrightarrow> lo ! j \<le> samples ! (i * nsf + j)
                                 \<and> samples ! (i * nsf + j) \<le> hi ! j)"
proof -
  let ?in = "\<lambda>j. lo ! j \<le> samples ! (i * nsf + j) \<and> samples ! (i * nsf + j) \<le> hi ! j"
  from count_excludes_unat [OF assms(1)] assms(2) have
    t: "unat t' = length (filter (\<lambda>j. he ! j) js)" and
    c: "unat c' = length (filter (\<lambda>j. he ! j \<and> ?in j) js)"
    by simp_all
  have "t' > 0 \<longleftrightarrow> (\<exists>j\<in>set js. he ! j)"
    by (simp add: word_less_nat_alt t filter_empty_conv)
  moreover have "c' = t' \<longleftrightarrow> (\<forall>j\<in>set js. he ! j \<longrightarrow> ?in j)"
    unfolding word_unat_eq_iff t c by (rule filter_conj_length_eq)
  ultimately show ?thesis by simp
qed

lemma count_excludes_event_excluded:
  assumes "count_excludes s (length sample_fields)
             (field_has_exclude sample_fields observables)
             (field_exclude_lower sample_fields observables)
             (field_exclude_upper sample_fields observables) i
             [0..<length sample_fields] (0, 0) = (t', c')"
    and "length sample_fields < 2 ^ 32"
  shows "(t' > 0 \<and> c' = t') \<longleftrightarrow> event_excluded s sample_fields observables i"
proof -
  have "length [0..<length sample_fields] < 2 ^ 32"
    using assms(2) by simp
  from count_excludes_decision [OF assms(1) this] show ?thesis
    unfolding event_excluded_def field_has_exclude_def field_exclude_lower_def
      field_exclude_upper_def
    by (auto simp: has_exclude_foldl exclude_lower_foldl exclude_upper_foldl
          split: option.splits)
qed

lemma event_excluded_cong:
  assumes "\<And>j. j < length sample_fields \<Longrightarrow>
             s ! (i * length sample_fields + j) = samples ! (i * length sample_fields + j)"
  shows "event_excluded s sample_fields observables i
           = event_excluded samples sample_fields observables i"
  unfolding event_excluded_def by (auto simp: assms split: option.splits)

lemma move_event_Some:
  "move_event nsf i k js samples = Some s' \<Longrightarrow>
     s' = fold (\<lambda>j s. s[k * nsf + j := s ! (i * nsf + j)]) js samples
     \<and> (\<forall>j\<in>set js. i * nsf + j < length samples \<and> k * nsf + j < length samples)"
proof (induction js arbitrary: samples)
  case Nil
  then show ?case by simp
next
  case (Cons j js)
  from Cons.prems have ok: "i * nsf + j < length samples" "k * nsf + j < length samples"
    by (auto split: if_splits)
  with Cons.prems have
    "move_event nsf i k js (samples[k * nsf + j := samples ! (i * nsf + j)]) = Some s'"
    by simp
  from Cons.IH [OF this] ok show ?case by simp
qed

lemma move_event_defined:
  "\<forall>j\<in>set js. i * nsf + j < length samples \<and> k * nsf + j < length samples \<Longrightarrow>
     \<exists>s'. move_event nsf i k js samples = Some s'"
  by (induction js arbitrary: samples) auto

text \<open>
  Moving a row downwards in place: the source row starts at \<open>c\<close>, the target at
  \<open>b \<le> c\<close>, so no write reaches an element that is still to be read.
\<close>

lemma fold_move_upt:
  assumes "b \<le> c" and "c + n \<le> length xs"
  shows "fold (\<lambda>j s. s[b + j := s ! (c + j)]) [0..<n] xs =
           take b xs @ map (\<lambda>j. xs ! (c + j)) [0..<n] @ drop (b + n) xs"
  using assms(2)
proof (induction n)
  case 0
  then show ?case by simp
next
  case (Suc n)
  let ?ys = "take b xs @ map (\<lambda>j. xs ! (c + j)) [0..<n] @ drop (b + n) xs"
  from Suc.prems assms(1) have le: "b + n < length xs" and cn: "c + n < length xs"
    by simp_all
  from Suc have ih: "fold (\<lambda>j s. s[b + j := s ! (c + j)]) [0..<n] xs = ?ys"
    by simp
  have rd: "?ys ! (c + n) = xs ! (c + n)"
    using le cn assms(1) by (auto simp: nth_append ac_simps)
  have "fold (\<lambda>j s. s[b + j := s ! (c + j)]) [0..<Suc n] xs = ?ys[b + n := xs ! (c + n)]"
    by (simp add: ih rd del: nth_append_length_plus)
  also have "\<dots> = take b xs @ map (\<lambda>j. xs ! (c + j)) [0..<n]
                      @ (drop (b + n) xs)[0 := xs ! (c + n)]"
    using le by (simp add: list_update_append)
  also have "(drop (b + n) xs)[0 := xs ! (c + n)] = xs ! (c + n) # drop (b + Suc n) xs"
    using le by (metis Cons_nth_drop_Suc add_Suc_right list_update_code(2))
  finally show ?case by simp
qed

lemma fold_move_length:
  "length (fold (\<lambda>j s. s[b + j := s ! (c + j)]) js xs) = length xs"
  by (induction js arbitrary: xs) simp_all

lemma exclusion_loop_append:
  "exclusion_loop nsf he lo hi (xs @ ys) st =
     (case exclusion_loop nsf he lo hi xs st of
        None \<Rightarrow> None
      | Some st' \<Rightarrow> exclusion_loop nsf he lo hi ys st')"
proof (induction xs arbitrary: st)
  case Nil
  then show ?case by simp
next
  case (Cons x xs)
  obtain s w k where st: "st = (s, w, k)" by (cases st)
  show ?case
    unfolding st by (simp add: Cons split: prod.splits option.splits)
qed

lemma drop_Suc_rows:
  assumes "drop (m * n) xs = drop (m * n) ys"
  shows "drop (Suc m * n) xs = drop (Suc m * n) ys"
proof -
  have "drop (Suc m * n) xs = drop n (drop (m * n) xs)"
    by (simp add: add.commute)
  also have "\<dots> = drop n (drop (m * n) ys)"
    by (simp only: assms)
  also have "\<dots> = drop (Suc m * n) ys"
    by (simp add: add.commute)
  finally show ?thesis .
qed

lemma drop_Suc_eq:
  assumes "drop m xs = drop m ys"
  shows "drop (Suc m) xs = drop (Suc m) ys"
proof -
  have "drop (Suc m) xs = tl (drop m xs)"
    by (simp add: drop_Suc tl_drop)
  also have "\<dots> = tl (drop m ys)"
    by (simp only: assms)
  also have "\<dots> = drop (Suc m) ys"
    by (simp add: drop_Suc tl_drop)
  finally show ?thesis .
qed

lemma nth_of_drop_eq:
  assumes "drop m xs = drop m ys" and "m + j < length xs" and "length xs = length ys"
  shows "xs ! (m + j) = ys ! (m + j)"
proof -
  have "xs ! (m + j) = drop m xs ! j"
    using assms(2) by simp
  also have "\<dots> = drop m ys ! j"
    by (simp only: assms(1))
  also have "\<dots> = ys ! (m + j)"
    using assms(2,3) by simp
  finally show ?thesis .
qed

lemma take_two_blocks:
  "length A = a \<Longrightarrow> length B = n \<Longrightarrow> take (a + n) (A @ B @ C) = A @ B"
  by simp

lemma drop_two_blocks:
  assumes "length A = a" and "length B = n" and "a + n \<le> N"
  shows "drop N (A @ B @ drop (a + n) xs) = drop N xs"
proof -
  have "drop N (A @ B @ drop (a + n) xs) = drop (N - (a + n)) (drop (a + n) xs)"
    using assms by simp
  also have "\<dots> = drop N xs"
    using assms(3) by simp
  finally show ?thesis .
qed

text \<open>One iteration of the loop carries the invariant from \<open>m\<close> to \<open>m + 1\<close>.\<close>

lemma exclusion_step:
  assumes inv: "exclusion_inv samples sample_fields weights observables m (s, w, k)"
    and m: "Suc m * length sample_fields \<le> length samples"
    and n32: "length sample_fields < 2 ^ 32"
    and step: "exclusion_loop (length sample_fields)
                 (field_has_exclude sample_fields observables)
                 (field_exclude_lower sample_fields observables)
                 (field_exclude_upper sample_fields observables) [m] (s, w, k) = Some st'"
  shows "exclusion_inv samples sample_fields weights observables (Suc m) st'"
proof -
  let ?nsf = "length sample_fields"
  let ?he = "field_has_exclude sample_fields observables"
  let ?lo = "field_exclude_lower sample_fields observables"
  let ?hi = "field_exclude_upper sample_fields observables"
  let ?keep = "\<lambda>i. \<not> event_excluded samples sample_fields observables i"
  let ?kept = "filter ?keep [0..<m]"
  from inv have k: "k = length ?kept"
    and ls: "length s = length samples"
    and tk: "take (k * ?nsf) s = concat (map (samples_row samples ?nsf) ?kept)"
    and dr: "drop (m * ?nsf) s = drop (m * ?nsf) samples"
    and lw: "length w = length weights"
    and wt: "weights \<noteq> [] \<Longrightarrow> take k w = map (\<lambda>i. weights ! i) ?kept"
    and wd: "weights \<noteq> [] \<Longrightarrow> drop m w = drop m weights"
    unfolding exclusion_inv_def Let_def prod.case by blast+
  have "length ?kept \<le> length [0..<m]" by (rule length_filter_le)
  with k have km: "k \<le> m" by simp
  then have kn: "k * ?nsf \<le> m * ?nsf" by (rule mult_le_mono1)
  from m have mn: "m * ?nsf + ?nsf \<le> length samples" by simp
  have rows: "s ! (m * ?nsf + j) = samples ! (m * ?nsf + j)" if "j < ?nsf" for j
    using dr _ ls by (rule nth_of_drop_eq) (use that mn ls in simp)
  obtain t' c' where cnt: "count_excludes s ?nsf ?he ?lo ?hi m [0..<?nsf] (0, 0) = (t', c')"
    by (cases "count_excludes s ?nsf ?he ?lo ?hi m [0..<?nsf] (0, 0)")
  have dec: "(t' > 0 \<and> c' = t') \<longleftrightarrow> event_excluded samples sample_fields observables m"
    using count_excludes_event_excluded [OF cnt n32] event_excluded_cong [of sample_fields s m samples]
      rows by simp
  show ?thesis
  proof (cases "event_excluded samples sample_fields observables m")
    case True
    with step cnt dec have st': "st' = (s, w, k)" by auto
    from True have kept: "filter ?keep [0..<Suc m] = ?kept" by simp
    have "drop (Suc m * ?nsf) s = drop (Suc m * ?nsf) samples"
      using dr by (rule drop_Suc_rows)
    moreover have "weights \<noteq> [] \<Longrightarrow> drop (Suc m) w = drop (Suc m) weights"
      using wd by (rule drop_Suc_eq)
    ultimately show ?thesis
      unfolding st' exclusion_inv_def Let_def kept prod.case
      using k ls tk lw wt by blast
  next
    case False
    with dec have nd: "\<not> (t' > 0 \<and> c' = t')" by simp
    from step cnt nd obtain s1 w1 where
      mv: "move_event ?nsf m k [0..<?nsf] s = Some s1" and
      mw: "move_weight m k w = Some w1" and
      st': "st' = (s1, w1, Suc k)"
      by (auto split: option.splits if_splits)
    from False have kept: "filter ?keep [0..<Suc m] = ?kept @ [m]" by simp
    have row: "map (\<lambda>j. s ! (m * ?nsf + j)) [0..<?nsf] = samples_row samples ?nsf m"
      unfolding samples_row_def by (rule map_cong) (simp_all add: rows)
    from move_event_Some [OF mv] have
      "s1 = fold (\<lambda>j x. x[k * ?nsf + j := x ! (m * ?nsf + j)]) [0..<?nsf] s" by simp
    also have "\<dots> = take (k * ?nsf) s @ map (\<lambda>j. s ! (m * ?nsf + j)) [0..<?nsf]
                        @ drop (k * ?nsf + ?nsf) s"
      using kn by (rule fold_move_upt) (use mn ls in simp)
    finally have s1: "s1 = take (k * ?nsf) s @ samples_row samples ?nsf m
                             @ drop (k * ?nsf + ?nsf) s"
      by (simp only: row)
    have lr: "length (samples_row samples ?nsf m) = ?nsf"
      by (simp add: samples_row_def)
    have kl: "k * ?nsf + ?nsf \<le> length s"
      using kn mn ls by linarith
    then have lt: "length (take (k * ?nsf) s) = k * ?nsf"
      by simp
    have sk: "Suc k * ?nsf = k * ?nsf + ?nsf" and sm: "k * ?nsf + ?nsf \<le> Suc m * ?nsf"
      using kn by simp_all
    have ls1: "length s1 = length samples"
      unfolding s1 using lr lt kl ls by simp
    have tk1: "take (Suc k * ?nsf) s1 = concat (map (samples_row samples ?nsf) (?kept @ [m]))"
    proof -
      have "take (Suc k * ?nsf) s1 = take (k * ?nsf) s @ samples_row samples ?nsf m"
        unfolding s1 sk using lt lr by (rule take_two_blocks)
      then show ?thesis by (simp add: tk)
    qed
    have dr1: "drop (Suc m * ?nsf) s1 = drop (Suc m * ?nsf) samples"
    proof -
      have "drop (Suc m * ?nsf) s1 = drop (Suc m * ?nsf) s"
        unfolding s1 using lt lr sm by (rule drop_two_blocks)
      also have "\<dots> = drop (Suc m * ?nsf) samples"
        using dr by (rule drop_Suc_rows)
      finally show ?thesis .
    qed
    have w1: "length w1 = length weights
              \<and> (weights \<noteq> [] \<longrightarrow> take (Suc k) w1 = map (\<lambda>i. weights ! i) (?kept @ [m])
                                    \<and> drop (Suc m) w1 = drop (Suc m) weights)"
    proof (cases "weights = []")
      case True
      with lw mw show ?thesis by (simp add: move_weight_def)
    next
      case ne: False
      with lw mw have mlt: "m < length w" and klt: "k < length w"
        and w1: "w1 = w[k := w ! m]"
        by (auto simp: move_weight_def split: if_splits)
      have "w ! (m + 0) = weights ! (m + 0)"
        using wd [OF ne] _ lw by (rule nth_of_drop_eq) (use mlt in simp)
      then have wm: "w ! m = weights ! m" by simp
      have "take (Suc k) w1 = take k w1 @ [w1 ! k]"
        using klt by (simp add: w1 take_Suc_conv_app_nth)
      also have "\<dots> = take k w @ [weights ! m]"
        using klt by (simp add: w1 wm)
      finally have "take (Suc k) w1 = map (\<lambda>i. weights ! i) (?kept @ [m])"
        by (simp add: wt [OF ne])
      moreover have "drop (Suc m) w1 = drop (Suc m) weights"
      proof -
        have "drop (Suc m) w1 = drop (Suc m) w"
          unfolding w1 using km by simp
        also have "\<dots> = drop (Suc m) weights"
          using wd [OF ne] by (rule drop_Suc_eq)
        finally show ?thesis .
      qed
      moreover have "length w1 = length weights"
        by (simp add: w1 lw)
      ultimately show ?thesis by simp
    qed
    show ?thesis
      unfolding st' exclusion_inv_def Let_def kept prod.case
      using k ls1 tk1 dr1 w1 by simp
  qed
qed

text \<open>The invariant holds after any number of events that the array has room for.\<close>

lemma exclusion_loop_invariant:
  assumes "exclusion_loop (length sample_fields)
             (field_has_exclude sample_fields observables)
             (field_exclude_lower sample_fields observables)
             (field_exclude_upper sample_fields observables) [0..<m] (samples, weights, 0)
           = Some st"
    and "m * length sample_fields \<le> length samples"
    and "length sample_fields < 2 ^ 32"
  shows "exclusion_inv samples sample_fields weights observables m st"
  using assms(1,2)
proof (induction m arbitrary: st)
  case 0
  then show ?case by (auto simp: exclusion_inv_def)
next
  case (Suc m)
  let ?loop = "exclusion_loop (length sample_fields)
                 (field_has_exclude sample_fields observables)
                 (field_exclude_lower sample_fields observables)
                 (field_exclude_upper sample_fields observables)"
  from Suc.prems(1) obtain st1 where
    l1: "?loop [0..<m] (samples, weights, 0) = Some st1" and
    l2: "?loop [m] st1 = Some st"
    by (auto simp: exclusion_loop_append split: option.splits)
  from Suc.prems(2) have "m * length sample_fields \<le> length samples" by simp
  with Suc.IH l1 have inv: "exclusion_inv samples sample_fields weights observables m st1"
    by blast
  obtain s w k where st1: "st1 = (s, w, k)" by (cases st1)
  from inv Suc.prems(2) assms(3) l2 show ?case
    unfolding st1 by (rule exclusion_step)
qed

text \<open>
  The function returns when there is at least one sample field and \<open>weights\<close> is empty
  or holds a weight for every event.
\<close>

lemma exclusion_loop_shape:
  "exclusion_loop nsf he lo hi is (s, w, k) = Some (s', w', k') \<Longrightarrow>
     length s' = length s \<and> length w' = length w \<and> k' \<le> k + length is"
proof (induction "is" arbitrary: s w k)
  case Nil
  then show ?case by simp
next
  case (Cons i "is")
  obtain t' c' where cnt: "count_excludes s nsf he lo hi i [0..<nsf] (0, 0) = (t', c')"
    by (cases "count_excludes s nsf he lo hi i [0..<nsf] (0, 0)")
  show ?case
  proof (cases "t' > 0 \<and> c' = t'")
    case True
    with Cons.prems cnt have "exclusion_loop nsf he lo hi is (s, w, k) = Some (s', w', k')"
      by simp
    from Cons.IH [OF this] show ?thesis by simp
  next
    case False
    with Cons.prems cnt obtain s1 w1 where
      mv: "move_event nsf i k [0..<nsf] s = Some s1" and
      mw: "move_weight i k w = Some w1" and
      r: "exclusion_loop nsf he lo hi is (s1, w1, Suc k) = Some (s', w', k')"
      by (auto split: option.splits if_splits)
    from move_event_Some [OF mv] have "length s1 = length s"
      by (simp add: fold_move_length)
    moreover from mw have "length w1 = length w"
      by (auto simp: move_weight_def split: if_splits)
    ultimately show ?thesis using Cons.IH [OF r] by simp
  qed
qed

lemma exclusion_loop_defined:
  assumes "m * nsf \<le> length samples" and "weights = [] \<or> m \<le> length weights"
  shows "\<exists>st. exclusion_loop nsf he lo hi [0..<m] (samples, weights, 0) = Some st"
  using assms
proof (induction m)
  case 0
  then show ?case by simp
next
  case (Suc m)
  then obtain s w k where
    l1: "exclusion_loop nsf he lo hi [0..<m] (samples, weights, 0) = Some (s, w, k)"
    by fastforce
  from exclusion_loop_shape [OF l1] have
    ls: "length s = length samples" and lw: "length w = length weights" and km: "k \<le> m"
    by simp_all
  obtain t' c' where cnt: "count_excludes s nsf he lo hi m [0..<nsf] (0, 0) = (t', c')"
    by (cases "count_excludes s nsf he lo hi m [0..<nsf] (0, 0)")
  have "\<exists>st. exclusion_loop nsf he lo hi [m] (s, w, k) = Some st"
  proof (cases "t' > 0 \<and> c' = t'")
    case True
    with cnt show ?thesis by simp
  next
    case False
    have kn: "k * nsf \<le> m * nsf" using km by (rule mult_le_mono1)
    from Suc.prems(1) have "m * nsf + nsf \<le> length s" by (simp add: ls)
    with kn have "m * nsf + j < length s \<and> k * nsf + j < length s" if "j < nsf" for j
      using that by linarith
    then have "\<forall>j\<in>set [0..<nsf]. m * nsf + j < length s \<and> k * nsf + j < length s"
      by simp
    from move_event_defined [OF this] obtain s1 where
      mv: "move_event nsf m k [0..<nsf] s = Some s1" by blast
    have "\<exists>w1. move_weight m k w = Some w1"
      using Suc.prems(2) lw km by (cases "weights = []") (simp_all add: move_weight_def)
    then obtain w1 where mw: "move_weight m k w = Some w1" by blast
    from cnt False mv mw show ?thesis by simp
  qed
  with l1 show ?case
    by (simp add: exclusion_loop_append)
qed

lemma apply_exclusions_defined:
  assumes "sample_fields \<noteq> []"
    and "weights = [] \<or> length samples div length sample_fields \<le> length weights"
  shows "\<exists>r. apply_exclusions samples sample_fields weights observables = Some r"
proof -
  have "length samples div length sample_fields * length sample_fields \<le> length samples"
    by simp
  from exclusion_loop_defined [OF this assms(2)] obtain st where
    "exclusion_loop (length sample_fields)
       (field_has_exclude sample_fields observables)
       (field_exclude_lower sample_fields observables)
       (field_exclude_upper sample_fields observables)
       [0..<length samples div length sample_fields] (samples, weights, 0) = Some st"
    by blast
  with assms(1) show ?thesis
    by (cases st) (simp add: apply_exclusions_def)
qed

text \<open>
  \<^bold>\<open>Claim C10.\<close>  Whenever \<^verbatim>\<open>apply_exclusions\<close> returns (with fewer than \<open>2^32\<close> sample
  fields, so that the \<^verbatim>\<open>unsigned\<close> counters do not wrap), the events left in
  \<open>samples\<close> are exactly those that are not excluded, where an event is excluded if and
  only if at least one sample field has an exclusion region and the event's value lies
  inside the region of every such field.  The surviving rows keep their order and their
  contents, \<open>weights\<close> has one entry per surviving row, and when \<open>weights\<close> was not
  empty on entry these are the weights of the surviving events, in the same order.
\<close>

theorem apply_exclusions_invariant:
  assumes "apply_exclusions samples sample_fields weights observables = Some (samples', weights')"
    and "length sample_fields < 2 ^ 32"
  shows "samples' = concat (map (samples_row samples (length sample_fields))
                             (surviving_events samples sample_fields observables))
         \<and> surviving_events samples sample_fields observables =
             filter (\<lambda>i. \<not> event_excluded samples sample_fields observables i)
               [0..<length samples div length sample_fields]
         \<and> length weights' = length samples' div length sample_fields
         \<and> (weights \<noteq> [] \<longrightarrow>
               weights' = map (\<lambda>i. weights ! i)
                            (surviving_events samples sample_fields observables))"
proof -
  let ?nsf = "length sample_fields"
  let ?m = "length samples div ?nsf"
  let ?kept = "surviving_events samples sample_fields observables"
  from assms(1) have pos: "0 < ?nsf"
    by (auto simp: apply_exclusions_def split: if_splits)
  from assms(1) obtain s w k where
    loop: "exclusion_loop ?nsf
             (field_has_exclude sample_fields observables)
             (field_exclude_lower sample_fields observables)
             (field_exclude_upper sample_fields observables) [0..<?m] (samples, weights, 0)
           = Some (s, w, k)" and
    s': "samples' = resize (k * ?nsf) s" and w': "weights' = resize k w"
    by (auto simp: apply_exclusions_def Let_def split: if_splits option.splits)
  have "?m * ?nsf \<le> length samples" by simp
  with loop have "exclusion_inv samples sample_fields weights observables ?m (s, w, k)"
    using assms(2) by (rule exclusion_loop_invariant)
  then have k: "k = length ?kept"
    and tk: "take (k * ?nsf) s = concat (map (samples_row samples ?nsf) ?kept)"
    and wt: "weights \<noteq> [] \<Longrightarrow> take k w = map (\<lambda>i. weights ! i) ?kept"
    unfolding exclusion_inv_def Let_def prod.case surviving_events_def by blast+
  have len: "length (concat (map (samples_row samples ?nsf) ?kept)) = length ?kept * ?nsf"
    by (rule length_concat_rows) (simp add: samples_row_def)
  from tk len k have "length (take (k * ?nsf) s) = k * ?nsf" by simp
  then have "k * ?nsf \<le> length s" by simp
  with s' tk have eq: "samples' = concat (map (samples_row samples ?nsf) ?kept)"
    by (simp add: resize_def)
  have "length samples' = k * ?nsf"
    unfolding s' by (rule resize_length)
  moreover have "length weights' = k"
    unfolding w' by (rule resize_length)
  ultimately have lw: "length weights' = length samples' div ?nsf"
    using pos by simp
  have ws: "weights' = map (\<lambda>i. weights ! i) ?kept" if ne: "weights \<noteq> []"
  proof -
    from wt [OF ne] k have "length (take k w) = k" by simp
    then have "k \<le> length w" by simp
    with w' wt [OF ne] show ?thesis by (simp add: resize_def)
  qed
  have "?kept = filter (\<lambda>i. \<not> event_excluded samples sample_fields observables i) [0..<?m]"
    by (simp add: surviving_events_def)
  with eq lw ws show ?thesis by blast
qed

text \<open>
  The theorem at three events with fields \<open>a\<close> and \<open>b\<close>, both with an exclusion region:
  only the second event lies inside both regions and is removed; the first lies inside one
  region only and is kept.
\<close>

theorem apply_exclusions_invariant_witness:
  "apply_exclusions [1, 5, 2, 7, 3, 9] [''a'', ''b''] [10, 20, 30]
     [\<lparr>field = ''a'', lower = Num 0, upper = Num 10, exclude = True, exclude_min = 1, exclude_max = 2\<rparr>,
      \<lparr>field = ''b'', lower = Num 0, upper = Num 10, exclude = True, exclude_min = 7, exclude_max = 9\<rparr>]
     = Some ([1, 5, 3, 9], [10, 30])
   \<and> length [''a'', ''b''] < (2::nat) ^ 32
   \<and> [1, 5, 3, 9] = concat (map (samples_row [1, 5, 2, 7, 3, 9] (length [''a'', ''b'']))
        (surviving_events [1, 5, 2, 7, 3, 9] [''a'', ''b'']
          [\<lparr>field = ''a'', lower = Num 0, upper = Num 10, exclude = True,
             exclude_min = 1, exclude_max = 2\<rparr>,
           \<lparr>field = ''b'', lower = Num 0, upper = Num 10, exclude = True,
             exclude_min = 7, exclude_max = 9\<rparr>]))
   \<and> surviving_events [1, 5, 2, 7, 3, 9] [''a'', ''b'']
          [\<lparr>field = ''a'', lower = Num 0, upper = Num 10, exclude = True,
             exclude_min = 1, exclude_max = 2\<rparr>,
           \<lparr>field = ''b'', lower = Num 0, upper = Num 10, exclude = True,
             exclude_min = 7, exclude_max = 9\<rparr>] = [0, 2]"
proof -
  have h: "apply_exclusions [1, 5, 2, 7, 3, 9] [''a'', ''b''] [10, 20, 30]
     [\<lparr>field = ''a'', lower = Num 0, upper = Num 10, exclude = True, exclude_min = 1, exclude_max = 2\<rparr>,
      \<lparr>field = ''b'', lower = Num 0, upper = Num 10, exclude = True, exclude_min = 7, exclude_max = 9\<rparr>]
     = Some ([1, 5, 3, 9], [10, 30])"
    by code_simp
  have n: "length [''a'', ''b''] < (2::nat) ^ 32"
    by simp
  have r: "surviving_events [1, 5, 2, 7, 3, 9] [''a'', ''b'']
          [\<lparr>field = ''a'', lower = Num 0, upper = Num 10, exclude = True,
             exclude_min = 1, exclude_max = 2\<rparr>,
           \<lparr>field = ''b'', lower = Num 0, upper = Num 10, exclude = True,
             exclude_min = 7, exclude_max = 9\<rparr>] = [0, 2]"
    by code_simp
  from apply_exclusions_invariant [OF h n] h n r show ?thesis
    by blast
qed

section \<open>Verification of \<^verbatim>\<open>Signal::set_efficiency\<close> and the constructors\<close>
















section \<open>Properties of the Metropolis controller\<close>

lemma step_index_flush: "step_index (flush st) = step_index st"
  by (simp add: flush_def)

lemma step_index_metropolis_step:
  "step_index (metropolis_step propose nll uniform debug_mode burnin sync_interval st)
     = Suc (step_index st)"
  by (simp add: metropolis_step_def Let_def step_index_flush)

lemma step_index_chain_after:
  "step_index (chain_after propose nll uniform debug_mode burnin sync_interval pm k) = k"
  by (induction k) (simp_all add: init_chain_def step_index_metropolis_step)

text \<open>A step records one sample or none, and none during burn-in.\<close>

lemma recorded_metropolis_step:
  "recorded (metropolis_step propose nll uniform debug_mode burnin sync_interval st) =
     recorded st @
     (if burnin \<le> step_index st
         \<and> (accept debug_mode (current_nll st) (nll (propose (step_index st) (current st)))
               (uniform (step_index st)) \<or> debug_mode)
      then [(current (metropolis_step propose nll uniform debug_mode burnin sync_interval st),
             current_nll (metropolis_step propose nll uniform debug_mode burnin sync_interval st))]
      else [])"
  by (simp add: metropolis_step_def Let_def recorded_def flush_def)

lemma length_recorded_metropolis_step:
  "length (recorded (metropolis_step propose nll uniform debug_mode burnin sync_interval st)) =
     length (recorded st) +
     (if burnin \<le> step_index st
         \<and> (accept debug_mode (current_nll st) (nll (propose (step_index st) (current st)))
               (uniform (step_index st)) \<or> debug_mode)
      then 1 else 0)"
  by (simp add: recorded_metropolis_step)

lemma recorded_chain_after:
  "length (recorded (chain_after propose nll uniform debug_mode burnin sync_interval pm k))
     \<le> k - burnin
   \<and> (debug_mode \<longrightarrow>
        length (recorded (chain_after propose nll uniform debug_mode burnin sync_interval pm k))
          = k - burnin)"
proof (induction k)
  case 0
  then show ?case by (simp add: init_chain_def recorded_def)
next
  case (Suc k)
  then show ?case
    by (auto simp: length_recorded_metropolis_step step_index_chain_after accept_def)
qed

lemma burnin_steps_le:
  assumes "0 \<le> burnin_fraction" and "burnin_fraction < 1"
  shows "burnin_steps nsteps burnin_fraction \<le> nsteps"
proof -
  have "real nsteps * burnin_fraction \<le> real nsteps"
    using assms by (simp add: mult_left_le)
  then have "\<lfloor>real nsteps * burnin_fraction\<rfloor> \<le> int nsteps"
    by linarith
  then show ?thesis
    by (simp add: burnin_steps_def)
qed

lemma walk_recorded:
  "walk propose nll uniform pm nsteps burnin_fraction debug_mode sync_interval =
     recorded (chain_after propose nll uniform debug_mode
                 (burnin_steps nsteps burnin_fraction) sync_interval pm nsteps)"
  by (simp add: walk_def flush_def recorded_def)

text \<open>
  \<^bold>\<open>Claim C5.\<close>  For a burn-in fraction in \<open>[0, 1)\<close>: after each of the first
  \<open>floor(nsteps * burnin_fraction)\<close> steps no sample has been recorded; the walk returns at
  most \<open>nsteps - burnin_steps\<close> samples; and in debug mode it returns exactly that many.
\<close>

theorem recorded_sample_count:
  assumes "0 \<le> burnin_fraction" and "burnin_fraction < 1"
  shows "burnin_steps nsteps burnin_fraction \<le> nsteps
         \<and> (\<forall>k \<in> {0..burnin_steps nsteps burnin_fraction}.
               recorded (chain_after propose nll uniform debug_mode
                           (burnin_steps nsteps burnin_fraction) sync_interval pm k) = [])
         \<and> length (walk propose nll uniform pm nsteps burnin_fraction debug_mode sync_interval)
               \<le> nsteps - burnin_steps nsteps burnin_fraction
         \<and> (debug_mode \<longrightarrow>
               length (walk propose nll uniform pm nsteps burnin_fraction debug_mode sync_interval)
                 = nsteps - burnin_steps nsteps burnin_fraction)"
proof -
  let ?b = "burnin_steps nsteps burnin_fraction"
  note rc = recorded_chain_after [of propose nll uniform debug_mode ?b sync_interval pm]
  have "recorded (chain_after propose nll uniform debug_mode ?b sync_interval pm k) = []"
    if "k \<le> ?b" for k
    using rc [of k] that by simp
  then have "\<forall>k \<in> {0..?b}.
               recorded (chain_after propose nll uniform debug_mode ?b sync_interval pm k) = []"
    by simp
  with burnin_steps_le [OF assms] rc [of nsteps] show ?thesis
    unfolding walk_recorded by blast
qed

text \<open>
  The theorem at a walk of four steps in debug mode with burn-in fraction \<open>1/2\<close>: two
  burn-in steps, two recorded samples.
\<close>

theorem recorded_sample_count_witness:
  "(0::real) \<le> 1 / 2 \<and> (1 / 2 :: real) < 1
   \<and> burnin_steps 4 (1 / 2) = 2
   \<and> length (walk (\<lambda>i v. map (\<lambda>x. x - 1) v) sum_list (\<lambda>i. 1 / 2) [0] 4 (1 / 2) True 3)
       = 4 - burnin_steps 4 (1 / 2)"
proof -
  have a: "(0::real) \<le> 1 / 2" and b: "(1 / 2 :: real) < 1"
    by simp_all
  have c: "burnin_steps 4 (1 / 2) = 2"
    by (simp add: burnin_steps_def)
  from recorded_sample_count [OF a b, where nsteps = 4 and debug_mode = True
      and propose = "\<lambda>i v. map (\<lambda>x. x - 1) v" and nll = sum_list and uniform = "\<lambda>i. 1 / 2"
      and pm = "[0]" and sync_interval = 3]
  have "length (walk (\<lambda>i v. map (\<lambda>x. x - 1) v) sum_list (\<lambda>i. 1 / 2) [0] 4 (1 / 2) True 3)
          = 4 - burnin_steps 4 (1 / 2)"
    by blast
  with a b c show ?thesis by blast
qed

text \<open>
  \<^bold>\<open>Claim C2\<close>, as stated, fails in debug mode, where every candidate is accepted: with
  current NLL \<open>0\<close>, candidate NLL \<open>1\<close> and uniform draw \<open>1/2\<close> the candidate is accepted
  although \<open>1 > 0\<close> and \<open>1/2\<close> is not below \<open>exp (0 - 1)\<close>.
\<close>

theorem acceptance_rule_counterexample:
  "accept True 0 1 (1 / 2) \<and> \<not> ((1::real) \<le> 0) \<and> \<not> ((1 / 2 :: real) < exp (0 - 1))"
proof -
  have "(2::real) \<le> exp 1"
    using exp_ge_add_one_self [of "1::real"] by simp
  then have "exp (- 1 :: real) \<le> 1 / 2"
    by (simp add: exp_minus field_simps)
  then show ?thesis
    by (simp add: accept_def)
qed

text \<open>
  \<^bold>\<open>Claim C2\<close>, amended.  Outside debug mode a candidate is accepted if its NLL is at most
  the current NLL, and otherwise exactly when the uniform draw is below
  \<open>exp (nll - nll')\<close>; in debug mode every candidate is accepted.  In both modes the chain
  moves to the candidate (and its NLL) when the candidate is accepted, and keeps its
  state otherwise.
\<close>

theorem acceptance_rule:
  "(\<not> debug_mode \<longrightarrow>
      (nll (propose (step_index st) (current st)) \<le> current_nll st \<longrightarrow>
         accept debug_mode (current_nll st) (nll (propose (step_index st) (current st)))
           (uniform (step_index st)))
      \<and> (\<not> nll (propose (step_index st) (current st)) \<le> current_nll st \<longrightarrow>
           accept debug_mode (current_nll st) (nll (propose (step_index st) (current st)))
             (uniform (step_index st))
           = (uniform (step_index st)
                < exp (current_nll st - nll (propose (step_index st) (current st))))))
   \<and> (debug_mode \<longrightarrow>
        accept debug_mode (current_nll st) (nll (propose (step_index st) (current st)))
          (uniform (step_index st)))
   \<and> current (metropolis_step propose nll uniform debug_mode burnin sync_interval st) =
       (if accept debug_mode (current_nll st) (nll (propose (step_index st) (current st)))
             (uniform (step_index st))
        then propose (step_index st) (current st) else current st)
   \<and> current_nll (metropolis_step propose nll uniform debug_mode burnin sync_interval st) =
       (if accept debug_mode (current_nll st) (nll (propose (step_index st) (current st)))
             (uniform (step_index st))
        then nll (propose (step_index st) (current st)) else current_nll st)"
  by (simp add: metropolis_step_def accept_def flush_def Let_def)

text \<open>
  The theorem at the first step of a chain started at \<open>[0]\<close>, outside debug mode, with a
  candidate of lower NLL: it is accepted and the chain moves to it.
\<close>

theorem acceptance_rule_witness:
  "\<not> False
   \<and> sum_list (map (\<lambda>x. x - 1) [0::real]) \<le> sum_list [0::real]
   \<and> accept False (current_nll (init_chain sum_list [0]))
       (sum_list (map (\<lambda>x. x - 1) (current (init_chain sum_list [0])))) (1 / 2)
   \<and> current (metropolis_step (\<lambda>i v. map (\<lambda>x. x - 1) v) sum_list (\<lambda>i. 1 / 2) False 0 3
                (init_chain sum_list [0])) = [- 1]"
proof -
  have le: "sum_list (map (\<lambda>x. x - 1) (current (init_chain sum_list [0::real])))
              \<le> current_nll (init_chain sum_list [0])"
    by (simp add: init_chain_def)
  note r = acceptance_rule [where debug_mode = False and propose = "\<lambda>i v. map (\<lambda>x. x - 1) v"
      and nll = sum_list and uniform = "\<lambda>i. 1 / 2" and burnin = 0 and sync_interval = 3
      and st = "init_chain sum_list [0]"]
  from r le have acc: "accept False (current_nll (init_chain sum_list [0]))
       (sum_list (map (\<lambda>x. x - 1) (current (init_chain sum_list [0])))) (1 / 2)"
    by blast
  with r have "current (metropolis_step (\<lambda>i v. map (\<lambda>x. x - 1) v) sum_list (\<lambda>i. 1 / 2) False 0 3
                (init_chain sum_list [0])) = map (\<lambda>x. x - 1) (current (init_chain sum_list [0]))"
    by simp
  then have "current (metropolis_step (\<lambda>i v. map (\<lambda>x. x - 1) v) sum_list (\<lambda>i. 1 / 2) False 0 3
                (init_chain sum_list [0])) = [- 1]"
    by (simp add: init_chain_def)
  with acc show ?thesis by simp
qed

end
